theory Spec2Isabelle
  imports Main "HOL-Library.Multiset"
begin

section \<open>The column scan of the crime reports notebook\<close>

text \<open>
  The notebook \<^verbatim>\<open>crime_reports_db.ipynb\<close> inspects \<^verbatim>\<open>boston.csv\<close> with three
  pieces of Python:
  \<^verbatim>\<open>
  def get_col_set(csv_filename, col_index):
      with open(csv_filename) as f:
          reader = csv.reader(f)
          next(reader)
          return set(row[col_index] for row in reader)

  for i in range(len(col_headers)):
      num_unique_values = len(get_col_set("boston.csv", i))
      print(f"- Column '{col_headers[i]}' has {num_unique_values} unique values")

  desc_unique_values = get_col_set("boston.csv", 2)
  desc_max_length = max(len(val) for val in desc_unique_values)
  \<close>
  The CSV parser is a library: a file is modelled by the list of rows that
  \<^verbatim>\<open>csv.reader\<close> yields for it, the header row first. A field is a \<^typ>\<open>string\<close>, whose
  elements stand for the characters that Python's \<^verbatim>\<open>len\<close> counts.
\<close>

subsection \<open>Exceptions, files and the interpreter state\<close>

datatype error = FileNotFoundError | StopIteration | IndexError | ValueError

type_synonym row = "string list"

text \<open>
  The state a call can touch: the files by name, the files currently held open, and
  the lines printed so far.
\<close>

record world =
  files :: "string \<Rightarrow> row list option"
  open_handles :: "string list"
  stdout :: "string list"

text \<open>\<^verbatim>\<open>open(name)\<close> raises when there is no such file, and registers the handle otherwise.\<close>

definition py_open :: "string \<Rightarrow> world \<Rightarrow> (error + row list) \<times> world" where
  "py_open name w =
     (case files w name of
        None \<Rightarrow> (Inl FileNotFoundError, w)
      | Some rs \<Rightarrow> (Inr rs, w\<lparr>open_handles := name # open_handles w\<rparr>))"

text \<open>Leaving the \<^verbatim>\<open>with\<close> block closes the file, on a return and on an exception alike.\<close>

definition py_close :: "string \<Rightarrow> world \<Rightarrow> world" where
  "py_close name w = w\<lparr>open_handles := remove1 name (open_handles w)\<rparr>"

definition py_print :: "string \<Rightarrow> world \<Rightarrow> world" where
  "py_print line w = w\<lparr>stdout := stdout w @ [line]\<rparr>"

subsection \<open>Iterators and indexing\<close>

text \<open>\<^verbatim>\<open>next(reader)\<close>: the next row and the rest of the iterator, or \<^verbatim>\<open>StopIteration\<close>.\<close>

fun next_row :: "row list \<Rightarrow> error + (row \<times> row list)" where
  "next_row [] = Inl StopIteration"
| "next_row (r # rs) = Inr (r, rs)"

text \<open>
  \<^verbatim>\<open>row[col_index]\<close>: a negative index counts from the end of the row, and an index
  outside \<open>-len(row) \<le> col_index < len(row)\<close> raises \<^verbatim>\<open>IndexError\<close>.
\<close>

definition getitem :: "row \<Rightarrow> int \<Rightarrow> error + string" where
  "getitem r i =
     (if 0 \<le> i \<and> i < int (length r) then Inr (r ! nat i)
      else if i < 0 \<and> - int (length r) \<le> i then Inr (r ! nat (int (length r) + i))
      else Inl IndexError)"

text \<open>
  \<^verbatim>\<open>set(row[col_index] for row in reader)\<close>: the set is built one row at a time, and the
  first row that cannot be indexed ends the construction with its exception.
\<close>

fun set_of_rows :: "row list \<Rightarrow> int \<Rightarrow> string set \<Rightarrow> error + string set" where
  "set_of_rows [] i acc = Inr acc"
| "set_of_rows (r # rs) i acc =
     (case getitem r i of
        Inl e \<Rightarrow> Inl e
      | Inr v \<Rightarrow> set_of_rows rs i (insert v acc))"

subsection \<open>\<^verbatim>\<open>get_col_set\<close>\<close>

definition get_col_set :: "world \<Rightarrow> string \<Rightarrow> int \<Rightarrow> (error + string set) \<times> world" where
  "get_col_set w csv_filename col_index =
     (case py_open csv_filename w of
        (Inl e, w1) \<Rightarrow> (Inl e, w1)
      | (Inr reader, w1) \<Rightarrow>
          (let result =
                 (case next_row reader of
                    Inl e \<Rightarrow> Inl e
                  | Inr (header, reader') \<Rightarrow> set_of_rows reader' col_index {})
           in (result, py_close csv_filename w1)))"

subsection \<open>The loop over the columns\<close>

text \<open>The decimal digits of a non-negative integer, as the f-string prints it.\<close>

fun str_nat :: "nat \<Rightarrow> string" where
  "str_nat n =
     (if n < 10 then [char_of (48 + n)]
      else str_nat (n div 10) @ [char_of (48 + n mod 10)])"

declare str_nat.simps [simp del]

definition unique_line :: "string \<Rightarrow> nat \<Rightarrow> string" where
  "unique_line name num_unique_values =
     ''- Column '' @ [CHR 0x27] @ name @ [CHR 0x27] @ '' has '' @
     str_nat num_unique_values @ '' unique values''"

text \<open>
  The loop body for the indices still to visit. \<^verbatim>\<open>len\<close> of the returned set is its
  cardinality. The notebook reads \<^verbatim>\<open>"boston.csv"\<close>; the file name is a parameter here.
  An exception of \<^verbatim>\<open>get_col_set\<close> ends the loop, and the lines printed before it stay
  printed. \<^verbatim>\<open>col_headers[i]\<close> is in range for every index that \<^verbatim>\<open>range\<close> yields.
\<close>

fun unique_values_loop ::
  "string list \<Rightarrow> string \<Rightarrow> nat list \<Rightarrow> world \<Rightarrow> (error + unit) \<times> world" where
  "unique_values_loop col_headers csv_filename [] w = (Inr (), w)"
| "unique_values_loop col_headers csv_filename (i # is) w =
     (case get_col_set w csv_filename (int i) of
        (Inl e, w1) \<Rightarrow> (Inl e, w1)
      | (Inr s, w1) \<Rightarrow>
          unique_values_loop col_headers csv_filename is
            (py_print (unique_line (col_headers ! i) (card s)) w1))"

definition print_unique_values :: "string list \<Rightarrow> string \<Rightarrow> world \<Rightarrow> (error + unit) \<times> world" where
  "print_unique_values col_headers csv_filename w =
     unique_values_loop col_headers csv_filename [0..<length col_headers] w"

subsection \<open>The maximum length\<close>

text \<open>
  \<^verbatim>\<open>max\<close> of an iterable: \<^verbatim>\<open>ValueError\<close> when it yields nothing; otherwise the first
  item, replaced by each later item that is greater.
\<close>

fun py_max :: "nat list \<Rightarrow> error + nat" where
  "py_max [] = Inl ValueError"
| "py_max (x # xs) = Inr (foldl (\<lambda>m v. if m < v then v else m) x xs)"

text \<open>
  \<^verbatim>\<open>max(len(val) for val in desc_unique_values)\<close>. Python does not fix the order in
  which a set is iterated, so the argument \<open>vals\<close> is the list of the set's elements in
  the order the iteration happens to visit them.
\<close>

definition desc_max_length :: "string list \<Rightarrow> error + nat" where
  "desc_max_length vals = py_max (map length vals)"

subsection \<open>The running maximum of the specification\<close>

text \<open>
  The specification describes a scan that the notebook does not have: each field is
  inserted into the set as its row is read, and the running maximum of the field
  lengths is updated at the same moment, starting from 0, the maximum length the
  specification gives a column with no data rows. These two definitions follow the
  specification's words; the field is extracted as the notebook does it.
\<close>

fun spec_running_scan :: "row list \<Rightarrow> int \<Rightarrow> string set \<times> nat \<Rightarrow> error + string set \<times> nat" where
  "spec_running_scan [] i acc = Inr acc"
| "spec_running_scan (r # rs) i (s, m) =
     (case getitem r i of
        Inl e \<Rightarrow> Inl e
      | Inr v \<Rightarrow> spec_running_scan rs i (insert v s, max m (length v)))"

definition spec_running_profile :: "row list \<Rightarrow> int \<Rightarrow> error + string set \<times> nat" where
  "spec_running_profile rows i = spec_running_scan rows i ({}, 0)"

subsection \<open>Concrete tables\<close>

text \<open>A state with one file, nothing open and nothing printed.\<close>

definition single_file :: "string \<Rightarrow> row list \<Rightarrow> world" where
  "single_file name rs =
     \<lparr>files = (\<lambda>n. if n = name then Some rs else None), open_handles = [], stdout = []\<rparr>"

definition day_table :: "row list" where
  "day_table = [[''day''], [''Mon''], [''Tue''], [''Mon'']]"

definition desc_table :: "row list" where
  "desc_table =
     [[''id'', ''desc''], [''1'', ''LARCENY''], [''2'', ''VANDALISM''], [''3'', ''LARCENY'']]"

definition short_table :: "row list" where
  "short_table = [[''id'', ''desc''], [''9'', ''A''], [''8'', ''BB''], [''7'', ''A'']]"

subsection \<open>Reading a printed number\<close>

text \<open>
  What a reader of a printed line takes a run of characters to be: every character a
  decimal digit (\<open>0\<close> is code 48, \<open>9\<close> is code 57), and the number they denote, most
  significant digit first.
\<close>

definition is_digit :: "char \<Rightarrow> bool" where
  "is_digit c = (48 \<le> (of_char c :: nat) \<and> (of_char c :: nat) \<le> 57)"

definition decimal_value :: "string \<Rightarrow> nat" where
  "decimal_value ds = foldl (\<lambda>a c. 10 * a + (of_char c - 48)) 0 ds"

section \<open>Properties\<close>

subsection \<open>Indexing and the row scan\<close>

text \<open>The rows that \<^verbatim>\<open>row[i]\<close> accepts, and the position it reads there.\<close>

definition in_range :: "row \<Rightarrow> int \<Rightarrow> bool" where
  "in_range r i = (- int (length r) \<le> i \<and> i < int (length r))"

definition position :: "row \<Rightarrow> int \<Rightarrow> nat" where
  "position r i = (if i < 0 then length r - nat (- i) else nat i)"

lemma getitem_eq:
  "getitem r i = (if in_range r i then Inr (r ! position r i) else Inl IndexError)"
proof (cases "i < 0")
  case True
  then have "nat (int (length r) + i) = length r - nat (- i)"
    by linarith
  with True show ?thesis
    by (auto simp: getitem_def in_range_def position_def)
next
  case False
  then show ?thesis
    by (auto simp: getitem_def in_range_def position_def)
qed

lemma set_of_rows_eq:
  "set_of_rows rs i acc =
     (if \<forall>r\<in>set rs. in_range r i
      then Inr (acc \<union> (\<lambda>r. r ! position r i) ` set rs)
      else Inl IndexError)"
  by (induction rs arbitrary: acc) (auto simp: getitem_eq)

lemma get_col_set_table:
  assumes "files w fn = Some (header # rows)"
  shows "get_col_set w fn i =
           (set_of_rows rows i {}, w)"
  using assms by (simp add: get_col_set_def py_open_def py_close_def)

subsection \<open>The distinct values of a column\<close>

text \<open>
  C1. For a table with a header row followed by data rows, and a column index that is
  valid for every data row (\<open>0 \<le> i < len(row)\<close>), \<^verbatim>\<open>get_col_set\<close> returns exactly the
  set of the fields at that index over the data rows; the header row is skipped and
  contributes nothing, and the state is left as it was.
\<close>

theorem get_col_set_distinct_values:
  assumes "files w fn = Some (header # rows)"
    and "\<forall>r\<in>set rows. 0 \<le> i \<and> i < int (length r)"
  shows "get_col_set w fn i = (Inr ((\<lambda>r. r ! nat i) ` set rows), w)"
proof -
  from assms(2) have ok: "\<forall>r\<in>set rows. in_range r i"
    by (auto simp: in_range_def)
  from assms(2) have "(\<lambda>r. r ! position r i) ` set rows = (\<lambda>r. r ! nat i) ` set rows"
    by (intro image_cong) (auto simp: position_def)
  with ok show ?thesis
    by (simp add: get_col_set_table [OF assms(1)] set_of_rows_eq)
qed

theorem get_col_set_distinct_values_witness:
  "files (single_file ''boston.csv'' day_table) ''boston.csv'' = Some ([''day''] # tl day_table)
   \<and> list_all (\<lambda>r. (0::int) \<le> 0 \<and> 0 < int (length r)) (tl day_table)
   \<and> get_col_set (single_file ''boston.csv'' day_table) ''boston.csv'' 0 =
       (Inr {''Mon'', ''Tue''}, single_file ''boston.csv'' day_table)
   \<and> card {''Mon'', ''Tue''} = 2"
  using get_col_set_distinct_values
    [of "single_file ''boston.csv'' day_table" "''boston.csv''" "[''day'']" "tl day_table" 0]
  by (simp add: single_file_def day_table_def insert_commute)

subsection \<open>The maximum length\<close>

lemma foldl_max:
  "foldl (\<lambda>m v. if m < v then v else m) (x::nat) xs = Max (set (x # xs))"
proof -
  have "(\<lambda>v m::nat. if m < v then v else m) = max"
    by (auto simp: fun_eq_iff max_def)
  then have "foldl (\<lambda>m v. if m < v then v else m) x xs = fold max xs x"
    by (simp add: foldl_conv_fold)
  also have "\<dots> = Max (set (x # xs))"
    by (rule Max.set_eq_fold [symmetric])
  finally show ?thesis .
qed

lemma desc_max_length_eq:
  assumes "vals \<noteq> []"
  shows "desc_max_length vals = Inr (Max (length ` set vals))"
proof -
  from assms obtain v vs where "vals = v # vs"
    by (cases vals) auto
  then show ?thesis
    by (simp add: desc_max_length_def foldl_max del: foldl_Cons)
qed

lemma desc_max_length_cong:
  assumes "set vals = set vals'"
  shows "desc_max_length vals = desc_max_length vals'"
proof (cases "vals = []")
  case True
  with assms show ?thesis by simp
next
  case False
  moreover from False assms have "vals' \<noteq> []" by auto
  ultimately show ?thesis
    using assms by (simp add: desc_max_length_eq)
qed

lemma set_of_rows_nonempty:
  assumes "set_of_rows rows i {} = Inr s" and "rows \<noteq> []"
  shows "s \<noteq> {}"
  using assms by (auto simp: set_of_rows_eq split: if_splits)

text \<open>
  C2. For a column with at least one data row, the maximum that the notebook computes
  from the set of distinct values is the length of a longest string of that set,
  whatever the order in which the set is iterated.
\<close>

theorem desc_max_length_longest:
  assumes "files w fn = Some (header # rows)"
    and "rows \<noteq> []"
    and "get_col_set w fn i = (Inr s, w')"
    and "set vals = s"
  shows "\<exists>m. desc_max_length vals = Inr m \<and> (\<exists>v\<in>s. length v = m) \<and> (\<forall>v\<in>s. length v \<le> m)"
proof -
  from assms(1,3) have "set_of_rows rows i {} = Inr s"
    by (simp add: get_col_set_table)
  then have "s \<noteq> {}"
    using assms(2) by (rule set_of_rows_nonempty)
  with assms(4) have ne: "vals \<noteq> []"
    by auto
  let ?L = "length ` set vals"
  have fin: "finite ?L" and nonempty: "?L \<noteq> {}"
    using ne by auto
  have "Max ?L \<in> ?L"
    using fin nonempty by (rule Max_in)
  moreover have "\<forall>v\<in>set vals. length v \<le> Max ?L"
    using fin by (auto intro: Max_ge)
  ultimately show ?thesis
    using assms(4) desc_max_length_eq [OF ne] by auto
qed

theorem desc_max_length_longest_witness:
  "files (single_file ''boston.csv'' desc_table) ''boston.csv'' =
     Some ([''id'', ''desc''] # tl desc_table)
   \<and> tl desc_table \<noteq> []
   \<and> get_col_set (single_file ''boston.csv'' desc_table) ''boston.csv'' 1 =
       (Inr {''LARCENY'', ''VANDALISM''}, single_file ''boston.csv'' desc_table)
   \<and> card {''LARCENY'', ''VANDALISM''} = 2
   \<and> desc_max_length [''LARCENY'', ''VANDALISM''] = Inr 9
   \<and> desc_max_length [''VANDALISM'', ''LARCENY''] = Inr 9
   \<and> (\<exists>m. desc_max_length [''VANDALISM'', ''LARCENY''] = Inr m
          \<and> (\<exists>v\<in>{''LARCENY'', ''VANDALISM''}. length v = m)
          \<and> (\<forall>v\<in>{''LARCENY'', ''VANDALISM''}. length v \<le> m))"
proof -
  have f: "files (single_file ''boston.csv'' desc_table) ''boston.csv'' =
             Some ([''id'', ''desc''] # tl desc_table)"
    by (simp add: single_file_def desc_table_def)
  have n: "tl desc_table \<noteq> []"
    by (simp add: desc_table_def)
  have g: "get_col_set (single_file ''boston.csv'' desc_table) ''boston.csv'' 1 =
             (Inr {''LARCENY'', ''VANDALISM''}, single_file ''boston.csv'' desc_table)"
    unfolding get_col_set_table [OF f]
    by (simp add: desc_table_def getitem_def insert_commute)
  have v: "set [''VANDALISM'', ''LARCENY''] = {''LARCENY'', ''VANDALISM''}"
    by auto
  have c: "card {''LARCENY'', ''VANDALISM''} = 2"
    by simp
  have d: "desc_max_length [''LARCENY'', ''VANDALISM''] = Inr 9"
    "desc_max_length [''VANDALISM'', ''LARCENY''] = Inr 9"
    by (simp_all add: desc_max_length_def)
  from desc_max_length_longest [OF f n g v] f n g c d show ?thesis
    by blast
qed

subsection \<open>One line per header column\<close>

lemma get_col_set_valid:
  assumes "files w fn = Some (header # rows)"
    and "\<forall>r\<in>set rows. i < length r"
  shows "get_col_set w fn (int i) = (Inr ((\<lambda>r. r ! i) ` set rows), w)"
proof -
  from assms(2) have "\<forall>r\<in>set rows. in_range r (int i)"
    by (auto simp: in_range_def)
  then show ?thesis
    by (simp add: get_col_set_table [OF assms(1)] set_of_rows_eq position_def)
qed

lemma unique_values_loop_valid:
  assumes "files w fn = Some (header # rows)"
    and "\<forall>i\<in>set is. \<forall>r\<in>set rows. i < length r"
  shows "unique_values_loop hs fn is w =
           (Inr (), w\<lparr>stdout := stdout w @
              map (\<lambda>i. unique_line (hs ! i) (card ((\<lambda>r. r ! i) ` set rows))) is\<rparr>)"
  using assms
proof (induction "is" arbitrary: w)
  case Nil
  then show ?case by simp
next
  case (Cons i "is")
  let ?w1 = "py_print (unique_line (hs ! i) (card ((\<lambda>r. r ! i) ` set rows))) w"
  from Cons.prems have col: "get_col_set w fn (int i) = (Inr ((\<lambda>r. r ! i) ` set rows), w)"
    by (intro get_col_set_valid) auto
  from Cons.prems have "files ?w1 fn = Some (header # rows)"
    by (simp add: py_print_def)
  moreover from Cons.prems have "\<forall>i\<in>set is. \<forall>r\<in>set rows. i < length r"
    by simp
  ultimately have "unique_values_loop hs fn is ?w1 =
      (Inr (), ?w1\<lparr>stdout := stdout ?w1 @
         map (\<lambda>i. unique_line (hs ! i) (card ((\<lambda>r. r ! i) ` set rows))) is\<rparr>)"
    by (rule Cons.IH)
  with col show ?case
    by (simp add: py_print_def)
qed

lemma str_nat_nonempty: "str_nat n \<noteq> []"
  by (subst str_nat.simps) simp

lemma str_nat_digits: "list_all is_digit (str_nat n)"
proof (induction n rule: str_nat.induct)
  case (1 n)
  show ?case
  proof (cases "n < 10")
    case True
    then show ?thesis
      by (subst str_nat.simps) (simp add: is_digit_def)
  next
    case False
    have "n mod 10 < 10"
      by simp
    then have "is_digit (char_of (48 + n mod 10))"
      unfolding is_digit_def by (simp add: mod_less)
    with False "1.IH" show ?thesis
      by (subst str_nat.simps) simp
  qed
qed

lemma decimal_value_snoc:
  "decimal_value (ds @ [c]) = 10 * decimal_value ds + (of_char c - 48)"
  by (simp add: decimal_value_def)

lemma decimal_value_str_nat: "decimal_value (str_nat n) = n"
proof (induction n rule: str_nat.induct)
  case (1 n)
  show ?case
  proof (cases "n < 10")
    case True
    then show ?thesis
      by (subst str_nat.simps) (simp add: decimal_value_def)
  next
    case False
    have "n mod 10 < 10"
      by simp
    then have "(of_char (char_of (48 + n mod 10)) :: nat) - 48 = n mod 10"
      by simp
    with False "1.IH" show ?thesis
      by (subst str_nat.simps) (simp add: decimal_value_snoc)
  qed
qed

lemma str_nat_leading: "hd (str_nat n) = CHR ''0'' \<longleftrightarrow> n = 0"
proof (induction n rule: str_nat.induct)
  case (1 n)
  show ?case
  proof (cases "n < 10")
    case True
    have "char_of (48 + n) = CHR ''0'' \<longleftrightarrow> (of_char (char_of (48 + n)) :: nat) = of_char CHR ''0''"
      by (simp only: of_char_eq_iff)
    with True show ?thesis
      by (subst str_nat.simps) simp
  next
    case False
    with "1.IH" have "hd (str_nat (n div 10)) \<noteq> CHR ''0''"
      by simp
    with False show ?thesis
      by (subst str_nat.simps) (simp add: str_nat_nonempty)
  qed
qed

lemma str_nat_canonical:
  "str_nat n \<noteq> [] \<and> list_all is_digit (str_nat n) \<and> decimal_value (str_nat n) = n
   \<and> (hd (str_nat n) = CHR ''0'' \<longrightarrow> str_nat n = ''0'')"
proof -
  have "str_nat n = ''0''" if "hd (str_nat n) = CHR ''0''"
  proof -
    from that have "n = 0"
      by (simp only: str_nat_leading)
    then show ?thesis
      by (subst str_nat.simps) (simp add: char_of_eq_iff)
  qed
  then show ?thesis
    by (simp add: str_nat_nonempty str_nat_digits decimal_value_str_nat)
qed

text \<open>
  C3, as the specification states it, does not hold: the loop returns nothing, and
  all it leaves behind is the lines it printed, which name each column and give the
  number of its distinct values and nothing else. Two tables whose second columns
  differ in their distinct values and in their maximum length get the same two lines,
  so the lines are not profiles of the columns.
\<close>

theorem print_unique_values_no_profile_counterexample:
  "fst (print_unique_values [''id'', ''desc''] ''boston.csv''
          (single_file ''boston.csv'' desc_table)) = Inr ()
   \<and> stdout (snd (print_unique_values [''id'', ''desc''] ''boston.csv''
          (single_file ''boston.csv'' desc_table))) =
       [''- Column '' @ [CHR 0x27] @ ''id'' @ [CHR 0x27] @ '' has 3 unique values'',
        ''- Column '' @ [CHR 0x27] @ ''desc'' @ [CHR 0x27] @ '' has 2 unique values'']
   \<and> fst (print_unique_values [''id'', ''desc''] ''boston.csv''
          (single_file ''boston.csv'' short_table)) = Inr ()
   \<and> stdout (snd (print_unique_values [''id'', ''desc''] ''boston.csv''
          (single_file ''boston.csv'' short_table))) =
       stdout (snd (print_unique_values [''id'', ''desc''] ''boston.csv''
          (single_file ''boston.csv'' desc_table)))
   \<and> fst (get_col_set (single_file ''boston.csv'' desc_table) ''boston.csv'' 1) =
       Inr {''LARCENY'', ''VANDALISM''}
   \<and> fst (get_col_set (single_file ''boston.csv'' short_table) ''boston.csv'' 1) =
       Inr {''A'', ''BB''}
   \<and> desc_max_length [''LARCENY'', ''VANDALISM''] = Inr 9
   \<and> desc_max_length [''A'', ''BB''] = Inr 2"
proof -
  let ?hs = "[''id'', ''desc'']"
  let ?w = "single_file ''boston.csv'' desc_table"
  let ?v = "single_file ''boston.csv'' short_table"
  let ?out = "[''- Column '' @ [CHR 0x27] @ ''id'' @ [CHR 0x27] @ '' has 3 unique values'',
               ''- Column '' @ [CHR 0x27] @ ''desc'' @ [CHR 0x27] @ '' has 2 unique values'']"
  have three: "unique_line ''id'' 3 = ''- Column '' @ [CHR 0x27] @ ''id'' @ [CHR 0x27] @ '' has 3 unique values''"
    and two: "unique_line ''desc'' 2 = ''- Column '' @ [CHR 0x27] @ ''desc'' @ [CHR 0x27] @ '' has 2 unique values''"
    by (simp_all add: unique_line_def str_nat.simps char_of_eq_iff)
  have upt2: "[0..<length ?hs] = [0, 1]"
    by (simp add: upt_rec)
  have fw: "files ?w ''boston.csv'' = Some (?hs # tl desc_table)"
    by (simp add: single_file_def desc_table_def)
  have fv: "files ?v ''boston.csv'' = Some (?hs # tl short_table)"
    by (simp add: single_file_def short_table_def)
  have "\<forall>i\<in>set [0..<length ?hs]. \<forall>r\<in>set (tl desc_table). i < length r"
    by (simp add: desc_table_def)
  with fw have "print_unique_values ?hs ''boston.csv'' ?w =
      (Inr (), ?w\<lparr>stdout := stdout ?w @
         map (\<lambda>i. unique_line (?hs ! i) (card ((\<lambda>r. r ! i) ` set (tl desc_table))))
           [0..<length ?hs]\<rparr>)"
    unfolding print_unique_values_def by (rule unique_values_loop_valid)
  moreover have "map (\<lambda>i. unique_line (?hs ! i) (card ((\<lambda>r. r ! i) ` set (tl desc_table))))
      [0..<length ?hs] = [unique_line ''id'' 3, unique_line ''desc'' 2]"
    unfolding upt2 by (simp add: desc_table_def insert_commute eval_nat_numeral)
  ultimately have rw: "print_unique_values ?hs ''boston.csv'' ?w =
      (Inr (), ?w\<lparr>stdout := stdout ?w @ ?out\<rparr>)"
    by (simp only: three two)
  have "\<forall>i\<in>set [0..<length ?hs]. \<forall>r\<in>set (tl short_table). i < length r"
    by (simp add: short_table_def)
  with fv have "print_unique_values ?hs ''boston.csv'' ?v =
      (Inr (), ?v\<lparr>stdout := stdout ?v @
         map (\<lambda>i. unique_line (?hs ! i) (card ((\<lambda>r. r ! i) ` set (tl short_table))))
           [0..<length ?hs]\<rparr>)"
    unfolding print_unique_values_def by (rule unique_values_loop_valid)
  moreover have "map (\<lambda>i. unique_line (?hs ! i) (card ((\<lambda>r. r ! i) ` set (tl short_table))))
      [0..<length ?hs] = [unique_line ''id'' 3, unique_line ''desc'' 2]"
    unfolding upt2 by (simp add: short_table_def insert_commute eval_nat_numeral)
  ultimately have rv: "print_unique_values ?hs ''boston.csv'' ?v =
      (Inr (), ?v\<lparr>stdout := stdout ?v @ ?out\<rparr>)"
    by (simp only: three two)
  have gw: "fst (get_col_set ?w ''boston.csv'' 1) = Inr {''LARCENY'', ''VANDALISM''}"
    unfolding get_col_set_table [OF fw]
    by (simp add: desc_table_def getitem_def insert_commute)
  have gv: "fst (get_col_set ?v ''boston.csv'' 1) = Inr {''A'', ''BB''}"
    unfolding get_col_set_table [OF fv]
    by (simp add: short_table_def getitem_def insert_commute)
  have m: "desc_max_length [''LARCENY'', ''VANDALISM''] = Inr 9"
    "desc_max_length [''A'', ''BB''] = Inr 2"
    by (simp_all add: desc_max_length_def)
  have sw: "stdout ?w = []" and sv: "stdout ?v = []"
    by (simp_all add: single_file_def)
  show ?thesis
    unfolding rw rv by (simp add: sw sv gw gv m)
qed

text \<open>
  C3, amended. For a valid table (every data row has at least as many fields as the
  header), the loop over \<^verbatim>\<open>range(len(col_headers))\<close> ends without an exception,
  returns nothing and has printed exactly one line per header column, in header
  order. The line at position \<open>i\<close> is the text \<^verbatim>\<open>- Column '\<close>, the name of header
  column \<open>i\<close>, \<^verbatim>\<open>' has \<close>, the number of distinct values of column \<open>i\<close> in decimal
  digits without a leading zero, and \<^verbatim>\<open> unique values\<close>. The distinct values
  themselves and the maximum length are no part of the output.
\<close>

theorem print_unique_values_per_column:
  assumes "files w fn = Some (col_headers # rows)"
    and "\<forall>r\<in>set rows. length col_headers \<le> length r"
  shows "\<exists>lines. print_unique_values col_headers fn w = (Inr (), w\<lparr>stdout := stdout w @ lines\<rparr>)
           \<and> length lines = length col_headers
           \<and> (\<forall>i<length col_headers. \<exists>digits.
                 lines ! i =
                   ''- Column '' @ [CHR 0x27] @ col_headers ! i @ [CHR 0x27] @ '' has '' @
                   digits @ '' unique values''
                 \<and> digits \<noteq> [] \<and> list_all is_digit digits
                 \<and> decimal_value digits = card ((\<lambda>r. r ! i) ` set rows)
                 \<and> (hd digits = CHR ''0'' \<longrightarrow> digits = ''0''))"
proof -
  let ?n = "\<lambda>i. card ((\<lambda>r. r ! i) ` set rows)"
  let ?lines = "map (\<lambda>i. unique_line (col_headers ! i) (?n i)) [0..<length col_headers]"
  from assms(2) have "\<forall>i\<in>set [0..<length col_headers]. \<forall>r\<in>set rows. i < length r"
    by fastforce
  with assms(1) have run: "print_unique_values col_headers fn w =
      (Inr (), w\<lparr>stdout := stdout w @ ?lines\<rparr>)"
    unfolding print_unique_values_def by (rule unique_values_loop_valid)
  have len: "length ?lines = length col_headers"
    by simp
  have "\<exists>digits.
      ?lines ! i =
        ''- Column '' @ [CHR 0x27] @ col_headers ! i @ [CHR 0x27] @ '' has '' @
        digits @ '' unique values''
      \<and> digits \<noteq> [] \<and> list_all is_digit digits
      \<and> decimal_value digits = ?n i
      \<and> (hd digits = CHR ''0'' \<longrightarrow> digits = ''0'')"
    if "i < length col_headers" for i
  proof -
    from that have "?lines ! i =
        ''- Column '' @ [CHR 0x27] @ col_headers ! i @ [CHR 0x27] @ '' has '' @
        str_nat (?n i) @ '' unique values''"
      by (simp add: unique_line_def)
    with str_nat_canonical [of "?n i"] show ?thesis
      by blast
  qed
  with run len show ?thesis
    by blast
qed

theorem print_unique_values_per_column_witness:
  "files (single_file ''boston.csv'' desc_table) ''boston.csv'' =
     Some ([''id'', ''desc''] # tl desc_table)
   \<and> list_all (\<lambda>r. length [''id'', ''desc''] \<le> length r) (tl desc_table)
   \<and> (\<exists>lines. print_unique_values [''id'', ''desc''] ''boston.csv''
                 (single_file ''boston.csv'' desc_table) =
               (Inr (), single_file ''boston.csv'' desc_table\<lparr>stdout := lines\<rparr>)
        \<and> length lines = 2
        \<and> (\<exists>digits. lines ! 0 =
               ''- Column '' @ [CHR 0x27] @ ''id'' @ [CHR 0x27] @ '' has '' @ digits @
               '' unique values''
             \<and> digits \<noteq> [] \<and> list_all is_digit digits \<and> decimal_value digits = 3)
        \<and> (\<exists>digits. lines ! 1 =
               ''- Column '' @ [CHR 0x27] @ ''desc'' @ [CHR 0x27] @ '' has '' @ digits @
               '' unique values''
             \<and> digits \<noteq> [] \<and> list_all is_digit digits \<and> decimal_value digits = 2))"
proof -
  have f: "files (single_file ''boston.csv'' desc_table) ''boston.csv'' =
             Some ([''id'', ''desc''] # tl desc_table)"
    by (simp add: single_file_def desc_table_def)
  have v: "\<forall>r\<in>set (tl desc_table). length [''id'', ''desc''] \<le> length r"
    by (simp add: desc_table_def)
  have s: "stdout (single_file ''boston.csv'' desc_table) = []"
    by (simp add: single_file_def)
  have c0: "card ((\<lambda>r. r ! 0) ` set (tl desc_table)) = 3"
    by (simp add: desc_table_def)
  have c1: "card ((\<lambda>r. r ! 1) ` set (tl desc_table)) = 2"
    by (simp add: desc_table_def insert_commute)
  from print_unique_values_per_column [OF f v] obtain lines where
    run: "print_unique_values [''id'', ''desc''] ''boston.csv''
            (single_file ''boston.csv'' desc_table) =
          (Inr (), single_file ''boston.csv'' desc_table\<lparr>stdout := lines\<rparr>)"
    and len: "length lines = length [''id'', ''desc'']"
    and nth: "\<And>i. i < length [''id'', ''desc''] \<Longrightarrow> \<exists>digits.
                lines ! i =
                  ''- Column '' @ [CHR 0x27] @ [''id'', ''desc''] ! i @ [CHR 0x27] @ '' has '' @
                  digits @ '' unique values''
                \<and> digits \<noteq> [] \<and> list_all is_digit digits
                \<and> decimal_value digits = card ((\<lambda>r. r ! i) ` set (tl desc_table))
                \<and> (hd digits = CHR ''0'' \<longrightarrow> digits = ''0'')"
    unfolding s append_Nil by blast
  from nth [of 0] have l0: "\<exists>digits. lines ! 0 =
      ''- Column '' @ [CHR 0x27] @ ''id'' @ [CHR 0x27] @ '' has '' @ digits @ '' unique values''
      \<and> digits \<noteq> [] \<and> list_all is_digit digits \<and> decimal_value digits = 3"
    unfolding c0 by auto
  from nth [of 1] have l1: "\<exists>digits. lines ! 1 =
      ''- Column '' @ [CHR 0x27] @ ''desc'' @ [CHR 0x27] @ '' has '' @ digits @ '' unique values''
      \<and> digits \<noteq> [] \<and> list_all is_digit digits \<and> decimal_value digits = 2"
    unfolding c1 by auto
  from len have "length lines = 2"
    by simp
  moreover from v have "list_all (\<lambda>r. length [''id'', ''desc''] \<le> length r) (tl desc_table)"
    by (simp add: list_all_iff)
  ultimately show ?thesis
    using f run l0 l1 by blast
qed

subsection \<open>A table with only a header\<close>

text \<open>
  C4, as the specification states it, does not hold: for a table with only a header
  row the set is empty, the only list of its elements is the empty list, and \<^verbatim>\<open>max\<close>
  over it raises \<^verbatim>\<open>ValueError\<close> instead of giving 0.
\<close>

theorem header_only_max_length_counterexample:
  "get_col_set (single_file ''boston.csv'' [[''day'']]) ''boston.csv'' 0 =
     (Inr {}, single_file ''boston.csv'' [[''day'']])
   \<and> desc_max_length [] = Inl ValueError
   \<and> desc_max_length [] \<noteq> Inr 0"
  by (simp add: get_col_set_def py_open_def py_close_def single_file_def desc_max_length_def)

text \<open>
  C4, amended. For a table with only a header row and every column index,
  \<^verbatim>\<open>get_col_set\<close> succeeds with the empty set, whose size is 0; the maximum length
  over that set is not 0 but the exception \<^verbatim>\<open>ValueError\<close>.
\<close>

theorem header_only_profile:
  assumes "files w fn = Some [header]"
  shows "get_col_set w fn i = (Inr {}, w)
         \<and> (\<forall>s. fst (get_col_set w fn i) = Inr s \<longrightarrow> card s = 0)
         \<and> (\<forall>s vals. fst (get_col_set w fn i) = Inr s \<and> set vals = s
               \<longrightarrow> desc_max_length vals = Inl ValueError)"
proof -
  from assms have "get_col_set w fn i = (Inr {}, w)"
    by (simp add: get_col_set_table)
  then show ?thesis
    by (auto simp: desc_max_length_def)
qed

theorem header_only_profile_witness:
  "files (single_file ''boston.csv'' [[''id'', ''desc'']]) ''boston.csv'' = Some [[''id'', ''desc'']]
   \<and> get_col_set (single_file ''boston.csv'' [[''id'', ''desc'']]) ''boston.csv'' 1 =
       (Inr {}, single_file ''boston.csv'' [[''id'', ''desc'']])
   \<and> card ({} :: string set) = 0
   \<and> desc_max_length [] = Inl ValueError"
proof -
  have f: "files (single_file ''boston.csv'' [[''id'', ''desc'']]) ''boston.csv'' =
             Some [[''id'', ''desc'']]"
    by (simp add: single_file_def)
  from header_only_profile [OF f, of 1] f show ?thesis
    by simp
qed

subsection \<open>Indices that a row does not have\<close>

text \<open>
  C5, as the specification states it, does not hold: the header row is skipped without
  a look at its width, so an index beyond the header is no error by itself. With a
  header of two columns, no data rows and the index 5, the call returns the empty set.
\<close>

theorem index_beyond_header_counterexample:
  "int (length [''id'', ''desc'']) \<le> 5
   \<and> get_col_set (single_file ''boston.csv'' [[''id'', ''desc'']]) ''boston.csv'' 5 =
       (Inr {}, single_file ''boston.csv'' [[''id'', ''desc'']])"
  by (simp add: get_col_set_def py_open_def py_close_def single_file_def)

text \<open>
  C5, amended. For a column index that is not less than the number of header columns,
  \<^verbatim>\<open>get_col_set\<close> raises \<^verbatim>\<open>IndexError\<close> exactly when some data row has no field at
  that index; when every data row has one (in particular when there are no data rows)
  it returns the set of those fields. The header's width plays no part.
\<close>

theorem index_beyond_header:
  assumes "files w fn = Some (header # rows)"
    and "int (length header) \<le> i"
  shows "get_col_set w fn i =
           (if \<exists>r\<in>set rows. int (length r) \<le> i then Inl IndexError
            else Inr ((\<lambda>r. r ! nat i) ` set rows), w)"
proof -
  from assms(2) have nonneg: "0 \<le> i"
    by linarith
  then have "in_range r i \<longleftrightarrow> \<not> int (length r) \<le> i" for r
    by (auto simp: in_range_def)
  moreover from nonneg have "position r i = nat i" for r
    by (simp add: position_def)
  ultimately show ?thesis
    by (simp add: get_col_set_table [OF assms(1)] set_of_rows_eq)
qed

theorem index_beyond_header_witness:
  "files (single_file ''boston.csv'' [[''id'', ''desc''], [''1'', ''LARCENY'']]) ''boston.csv'' =
     Some ([''id'', ''desc''] # [[''1'', ''LARCENY'']])
   \<and> int (length [''id'', ''desc'']) \<le> 5
   \<and> get_col_set (single_file ''boston.csv'' [[''id'', ''desc''], [''1'', ''LARCENY'']])
         ''boston.csv'' 5 =
       (Inl IndexError, single_file ''boston.csv'' [[''id'', ''desc''], [''1'', ''LARCENY'']])"
proof -
  have f: "files (single_file ''boston.csv'' [[''id'', ''desc''], [''1'', ''LARCENY'']])
             ''boston.csv'' = Some ([''id'', ''desc''] # [[''1'', ''LARCENY'']])"
    by (simp add: single_file_def)
  have h: "int (length [''id'', ''desc'']) \<le> 5"
    by simp
  from index_beyond_header [OF f h] f h show ?thesis
    by simp
qed

text \<open>
  C6. When the column index is within the header and some data row has fewer than
  \<open>i + 1\<close> fields, \<^verbatim>\<open>get_col_set\<close> ends with the exception that indexing the row raises
  (\<^verbatim>\<open>IndexError\<close>, the notebook's form of the specification's malformed row error). The
  result is the exception alone: no set, complete or partial, comes back, nothing is
  printed and no file stays open.
\<close>

theorem short_row_fails:
  assumes "files w fn = Some (header # rows)"
    and "0 \<le> i" and "i < int (length header)"
    and "\<exists>r\<in>set rows. int (length r) < i + 1"
  shows "get_col_set w fn i = (Inl IndexError, w)"
proof -
  from assms(4) obtain r where "r \<in> set rows" and "int (length r) < i + 1"
    by blast
  then have "\<not> (\<forall>r\<in>set rows. in_range r i)"
    by (auto simp: in_range_def intro!: bexI [of _ r])
  then show ?thesis
    by (simp add: get_col_set_table [OF assms(1)] set_of_rows_eq)
qed

theorem short_row_fails_witness:
  "files (single_file ''boston.csv'' [[''id'', ''desc''], [''1'', ''LARCENY''], [''2'']])
      ''boston.csv'' = Some ([''id'', ''desc''] # [[''1'', ''LARCENY''], [''2'']])
   \<and> (0::int) \<le> 1 \<and> 1 < int (length [''id'', ''desc''])
   \<and> (\<exists>r\<in>set [[''1'', ''LARCENY''], [''2'']]. int (length r) < 1 + 1)
   \<and> get_col_set (single_file ''boston.csv'' [[''id'', ''desc''], [''1'', ''LARCENY''], [''2'']])
         ''boston.csv'' 1 =
       (Inl IndexError,
        single_file ''boston.csv'' [[''id'', ''desc''], [''1'', ''LARCENY''], [''2'']])"
proof -
  have f: "files (single_file ''boston.csv'' [[''id'', ''desc''], [''1'', ''LARCENY''], [''2'']])
             ''boston.csv'' = Some ([''id'', ''desc''] # [[''1'', ''LARCENY''], [''2'']])"
    by (simp add: single_file_def)
  have a: "(0::int) \<le> 1" and b: "1 < int (length [''id'', ''desc''])"
    by simp_all
  have c: "\<exists>r\<in>set [[''1'', ''LARCENY''], [''2'']]. int (length r) < 1 + 1"
    by simp
  from short_row_fails [OF f a b c] f a b c show ?thesis
    by blast
qed

subsection \<open>Negative indices\<close>

text \<open>
  C10. For \<open>k \<ge> 1\<close> and data rows that all have at least \<open>k\<close> fields, the index \<open>-k\<close>
  raises nothing: \<^verbatim>\<open>get_col_set\<close> returns the set of the fields at position
  \<open>len(row) - k\<close> of each data row, counted from the end of that row.
\<close>

theorem negative_index_from_end:
  assumes "files w fn = Some (header # rows)"
    and "0 < k"
    and "\<forall>r\<in>set rows. k \<le> length r"
  shows "get_col_set w fn (- int k) = (Inr ((\<lambda>r. r ! (length r - k)) ` set rows), w)"
proof -
  from assms(2,3) have "\<forall>r\<in>set rows. in_range r (- int k)"
    by (auto simp: in_range_def)
  moreover from assms(2) have "position r (- int k) = length r - k" for r
    by (simp add: position_def)
  ultimately show ?thesis
    by (simp add: get_col_set_table [OF assms(1)] set_of_rows_eq)
qed

theorem negative_index_from_end_witness:
  "files (single_file ''boston.csv'' [[''id'', ''desc''], [''1'', ''LARCENY''], [''VANDALISM'']])
      ''boston.csv'' = Some ([''id'', ''desc''] # [[''1'', ''LARCENY''], [''VANDALISM'']])
   \<and> (0::nat) < 1
   \<and> list_all (\<lambda>r. 1 \<le> length r) [[''1'', ''LARCENY''], [''VANDALISM'']]
   \<and> get_col_set
         (single_file ''boston.csv'' [[''id'', ''desc''], [''1'', ''LARCENY''], [''VANDALISM'']])
         ''boston.csv'' (- 1) =
       (Inr {''LARCENY'', ''VANDALISM''},
        single_file ''boston.csv'' [[''id'', ''desc''], [''1'', ''LARCENY''], [''VANDALISM'']])"
proof -
  have f: "files
      (single_file ''boston.csv'' [[''id'', ''desc''], [''1'', ''LARCENY''], [''VANDALISM'']])
      ''boston.csv'' = Some ([''id'', ''desc''] # [[''1'', ''LARCENY''], [''VANDALISM'']])"
    by (simp add: single_file_def)
  have k: "(0::nat) < 1"
    by simp
  have v: "\<forall>r\<in>set [[''1'', ''LARCENY''], [''VANDALISM'']]. 1 \<le> length r"
    by simp
  from negative_index_from_end [OF f k v] f k show ?thesis
    by (simp add: insert_commute)
qed

subsection \<open>The order of the data rows\<close>

text \<open>
  C7. Permuting the data rows under the same header changes nothing in what the
  notebook computes for a column: the outcome of \<^verbatim>\<open>get_col_set\<close> is the same (the same
  set, or the same exception), and so are the number of distinct values and the
  maximum length, whatever the iteration orders of the two sets.
\<close>

theorem permuted_rows_same_profile:
  assumes "mset rows' = mset rows"
    and "files w fn = Some (header # rows)"
    and "files w' fn = Some (header # rows')"
  shows "fst (get_col_set w' fn i) = fst (get_col_set w fn i)
         \<and> (\<forall>s s' vals vals'.
               fst (get_col_set w fn i) = Inr s \<and> fst (get_col_set w' fn i) = Inr s'
               \<and> set vals = s \<and> set vals' = s'
               \<longrightarrow> s' = s \<and> card s' = card s
                   \<and> desc_max_length vals' = desc_max_length vals)"
proof -
  from assms(1) have "set rows' = set rows"
    by (rule mset_eq_setD)
  then have "set_of_rows rows' i {} = set_of_rows rows i {}"
    by (simp only: set_of_rows_eq)
  then have same: "fst (get_col_set w' fn i) = fst (get_col_set w fn i)"
    by (simp only: get_col_set_table [OF assms(2)] get_col_set_table [OF assms(3)] fst_conv)
  have "s' = s \<and> card s' = card s \<and> desc_max_length vals' = desc_max_length vals"
    if a: "fst (get_col_set w fn i) = Inr s" and b: "fst (get_col_set w' fn i) = Inr s'"
      and c: "set vals = s" and d: "set vals' = s'"
    for s s' and vals vals' :: "string list"
  proof -
    from a b have eq: "s' = s"
      unfolding same by simp
    with c d have "set vals' = set vals"
      by simp
    then have "desc_max_length vals' = desc_max_length vals"
      by (rule desc_max_length_cong)
    with eq show ?thesis
      by simp
  qed
  with same show ?thesis
    by blast
qed

theorem permuted_rows_same_profile_witness:
  "mset [[''Tue''], [''Mon''], [''Mon'']] = mset (tl day_table)
   \<and> fst (get_col_set (single_file ''boston.csv'' ([''day''] # [[''Tue''], [''Mon''], [''Mon'']]))
            ''boston.csv'' 0) =
       fst (get_col_set (single_file ''boston.csv'' day_table) ''boston.csv'' 0)
   \<and> fst (get_col_set (single_file ''boston.csv'' day_table) ''boston.csv'' 0) =
       Inr {''Mon'', ''Tue''}
   \<and> desc_max_length [''Tue'', ''Mon''] = desc_max_length [''Mon'', ''Tue'']"
proof -
  let ?w = "single_file ''boston.csv'' day_table"
  let ?w' = "single_file ''boston.csv'' ([''day''] # [[''Tue''], [''Mon''], [''Mon'']])"
  have p: "mset [[''Tue''], [''Mon''], [''Mon'']] = mset (tl day_table)"
    by (simp add: day_table_def)
  have f: "files ?w ''boston.csv'' = Some ([''day''] # tl day_table)"
    by (simp add: single_file_def day_table_def)
  have f': "files ?w' ''boston.csv'' = Some ([''day''] # [[''Tue''], [''Mon''], [''Mon'']])"
    by (simp add: single_file_def)
  have g: "fst (get_col_set ?w ''boston.csv'' 0) = Inr {''Mon'', ''Tue''}"
    unfolding get_col_set_table [OF f]
    by (simp add: day_table_def getitem_def insert_commute)
  have g': "fst (get_col_set ?w' ''boston.csv'' 0) = Inr {''Mon'', ''Tue''}"
    unfolding get_col_set_table [OF f']
    by (simp add: getitem_def insert_commute)
  have v: "set [''Mon'', ''Tue''] = {''Mon'', ''Tue''}"
    and v': "set [''Tue'', ''Mon''] = {''Mon'', ''Tue''}"
    by auto
  from permuted_rows_same_profile [OF p f f', of 0] g g' v v'
  have "desc_max_length [''Tue'', ''Mon''] = desc_max_length [''Mon'', ''Tue'']"
    by blast
  with p g g' show ?thesis
    by simp
qed

subsection \<open>No state carried from one call to the next\<close>

lemma get_col_set_world: "snd (get_col_set w fn i) = w"
  by (simp add: get_col_set_def py_open_def py_close_def split: option.splits)

lemma get_col_set_files:
  assumes "files w' fn = files w fn"
  shows "fst (get_col_set w' fn i) = fst (get_col_set w fn i)"
  using assms by (simp add: get_col_set_def py_open_def py_close_def split: option.splits)

lemma unique_values_loop_files:
  "\<exists>r lines. \<forall>w'. files w' fn = files (w::world) fn \<longrightarrow>
     unique_values_loop hs fn is w' = (r, w'\<lparr>stdout := stdout w' @ lines\<rparr>)"
proof (induction "is")
  case Nil
  have "\<forall>w'. files w' fn = files w fn \<longrightarrow>
      unique_values_loop hs fn [] w' = (Inr (), w'\<lparr>stdout := stdout w' @ []\<rparr>)"
    by simp
  then show ?case by blast
next
  case (Cons i "is")
  then obtain r lines where rest: "\<And>w'. files w' fn = files w fn \<Longrightarrow>
      unique_values_loop hs fn is w' = (r, w'\<lparr>stdout := stdout w' @ lines\<rparr>)"
    by blast
  have call: "get_col_set w' fn (int i) = (fst (get_col_set w fn (int i)), w')"
    if "files w' fn = files w fn" for w'
    using get_col_set_files [OF that, of "int i"] get_col_set_world [of w' fn "int i"]
    by (simp add: prod_eq_iff)
  show ?case
  proof (cases "fst (get_col_set w fn (int i))")
    case (Inl e)
    with call have "\<forall>w'. files w' fn = files w fn \<longrightarrow>
        unique_values_loop hs fn (i # is) w' = (Inl e, w'\<lparr>stdout := stdout w' @ []\<rparr>)"
      by simp
    then show ?thesis by blast
  next
    case (Inr s)
    let ?line = "unique_line (hs ! i) (card s)"
    have "unique_values_loop hs fn (i # is) w' = (r, w'\<lparr>stdout := stdout w' @ ?line # lines\<rparr>)"
      if same: "files w' fn = files w fn" for w'
    proof -
      from same have "files (py_print ?line w') fn = files w fn"
        by (simp add: py_print_def)
      then have "unique_values_loop hs fn is (py_print ?line w') =
          (r, (py_print ?line w')\<lparr>stdout := stdout (py_print ?line w') @ lines\<rparr>)"
        by (rule rest)
      with call [OF same] Inr show ?thesis
        by (simp add: py_print_def)
    qed
    then show ?thesis by blast
  qed
qed

text \<open>
  C8. The scan is a function of the table alone and carries no state: a call of
  \<^verbatim>\<open>get_col_set\<close> leaves the state exactly as it found it (the file is closed again,
  nothing is printed), so a second call on the same table gives the same outcome; the
  loop over the columns changes nothing but the printed output, and a second run
  prints the same lines again with the same outcome; and the maximum length is the
  same for any two iteration orders of the same set.
\<close>

theorem scan_is_pure:
  "snd (get_col_set w fn i) = w
   \<and> get_col_set (snd (get_col_set w fn i)) fn i = get_col_set w fn i
   \<and> (\<exists>r lines.
         print_unique_values hs fn w = (r, w\<lparr>stdout := stdout w @ lines\<rparr>)
         \<and> print_unique_values hs fn (w\<lparr>stdout := stdout w @ lines\<rparr>) =
             (r, w\<lparr>stdout := stdout w @ lines @ lines\<rparr>))
   \<and> (set vals = set vals' \<longrightarrow> desc_max_length vals = desc_max_length vals')"
proof -
  have a: "snd (get_col_set w fn i) = w"
    by (rule get_col_set_world)
  obtain r lines where loop: "\<And>w'. files w' fn = files w fn \<Longrightarrow>
      unique_values_loop hs fn [0..<length hs] w' = (r, w'\<lparr>stdout := stdout w' @ lines\<rparr>)"
    using unique_values_loop_files [of fn w hs "[0..<length hs]"] by blast
  have first: "print_unique_values hs fn w = (r, w\<lparr>stdout := stdout w @ lines\<rparr>)"
    unfolding print_unique_values_def by (rule loop) simp
  have "print_unique_values hs fn (w\<lparr>stdout := stdout w @ lines\<rparr>) =
      (r, w\<lparr>stdout := stdout w @ lines\<rparr>
            \<lparr>stdout := stdout (w\<lparr>stdout := stdout w @ lines\<rparr>) @ lines\<rparr>)"
    unfolding print_unique_values_def by (rule loop) simp
  then have second: "print_unique_values hs fn (w\<lparr>stdout := stdout w @ lines\<rparr>) =
      (r, w\<lparr>stdout := stdout w @ lines @ lines\<rparr>)"
    by simp
  have c: "set vals = set vals' \<longrightarrow> desc_max_length vals = desc_max_length vals'"
    by (auto intro: desc_max_length_cong)
  from a first second c show ?thesis
    by auto
qed

theorem scan_is_pure_witness:
  "set [''Mon'', ''Tue''] = set [''Tue'', ''Mon'']
   \<and> desc_max_length [''Mon'', ''Tue''] = desc_max_length [''Tue'', ''Mon'']
   \<and> snd (get_col_set (single_file ''boston.csv'' day_table) ''boston.csv'' 0) =
       single_file ''boston.csv'' day_table
   \<and> get_col_set (snd (get_col_set (single_file ''boston.csv'' day_table) ''boston.csv'' 0))
         ''boston.csv'' 0 =
       get_col_set (single_file ''boston.csv'' day_table) ''boston.csv'' 0"
proof -
  have e: "set [''Mon'', ''Tue''] = set [''Tue'', ''Mon'']"
    by auto
  from scan_is_pure [of "single_file ''boston.csv'' day_table" "''boston.csv''" 0
      "[''day'']" "[''Mon'', ''Tue'']" "[''Tue'', ''Mon'']"] e
  show ?thesis
    by blast
qed

subsection \<open>Running maximum and second pass\<close>

lemma Max_insert_max:
  assumes "finite A"
  shows "Max (insert (max a b) A) = Max (insert a (insert b A))"
proof (cases "A = {}")
  case True
  then show ?thesis by (simp add: max.commute)
next
  case False
  with assms show ?thesis by (simp add: max.assoc)
qed

lemma spec_running_scan_eq:
  "spec_running_scan rs i (s, m) =
     (if \<forall>r\<in>set rs. in_range r i
      then Inr (s \<union> (\<lambda>r. r ! position r i) ` set rs,
                Max (insert m (length ` (\<lambda>r. r ! position r i) ` set rs)))
      else Inl IndexError)"
proof (induction rs arbitrary: s m)
  case Nil
  then show ?case by simp
next
  case (Cons r rs)
  show ?case
  proof (cases "in_range r i")
    case False
    then show ?thesis by (simp add: getitem_eq)
  next
    case True
    have "Max (insert (max m (length (r ! position r i)))
                 (length ` (\<lambda>r. r ! position r i) ` set rs)) =
          Max (insert m (insert (length (r ! position r i))
                 (length ` (\<lambda>r. r ! position r i) ` set rs)))"
      by (rule Max_insert_max) simp
    with True Cons.IH show ?thesis
      by (simp add: getitem_eq)
  qed
qed

text \<open>
  C9, as the specification states it, does not hold for a table with only a header
  row: the running maximum of the scan is 0 there, while the second pass over the
  final, empty set is \<^verbatim>\<open>max\<close> of nothing and raises \<^verbatim>\<open>ValueError\<close>.
\<close>

theorem running_max_header_only_counterexample:
  "fst (get_col_set (single_file ''boston.csv'' [[''day'']]) ''boston.csv'' 0) = Inr {}
   \<and> spec_running_profile [] 0 = Inr ({}, 0)
   \<and> desc_max_length [] = Inl ValueError"
  by (simp add: get_col_set_def py_open_def py_close_def single_file_def desc_max_length_def
      spec_running_profile_def)

text \<open>
  C9, amended. For a table with at least one data row, the running maximum kept
  during the row scan and the second pass over the final set of distinct values
  agree: when every data row can be indexed, both give the same set and the same
  maximum length, for every iteration order of the set; when some data row cannot,
  both end with the same exception.
\<close>

theorem running_max_agrees:
  assumes "files w fn = Some (header # rows)"
    and "rows \<noteq> []"
  shows "case fst (get_col_set w fn i) of
           Inl e \<Rightarrow> spec_running_profile rows i = Inl e
         | Inr s \<Rightarrow>
             (\<forall>vals. set vals = s \<longrightarrow>
                (\<exists>m. spec_running_profile rows i = Inr (s, m) \<and> desc_max_length vals = Inr m))"
proof (cases "\<forall>r\<in>set rows. in_range r i")
  case False
  then have "fst (get_col_set w fn i) = Inl IndexError"
    by (simp only: get_col_set_table [OF assms(1)] set_of_rows_eq if_False fst_conv)
  moreover from False have "spec_running_profile rows i = Inl IndexError"
    by (simp only: spec_running_profile_def spec_running_scan_eq if_False)
  ultimately show ?thesis
    by simp
next
  case True
  let ?s = "(\<lambda>r. r ! position r i) ` set rows"
  from True have col: "fst (get_col_set w fn i) = Inr ?s"
    by (simp add: get_col_set_table [OF assms(1)] set_of_rows_eq)
  from assms(2) have ne: "?s \<noteq> {}"
    by simp
  then have "Max (insert 0 (length ` ?s)) = Max (length ` ?s)"
    by simp
  with True have run: "spec_running_profile rows i = Inr (?s, Max (length ` ?s))"
    by (simp add: spec_running_profile_def spec_running_scan_eq)
  have "desc_max_length vals = Inr (Max (length ` ?s))" if "set vals = ?s" for vals
  proof -
    from that ne have "vals \<noteq> []"
      by auto
    then have "desc_max_length vals = Inr (Max (length ` set vals))"
      by (rule desc_max_length_eq)
    with that show ?thesis
      by simp
  qed
  with run show ?thesis
    unfolding col by simp
qed

theorem running_max_agrees_witness:
  "files (single_file ''boston.csv'' desc_table) ''boston.csv'' =
     Some ([''id'', ''desc''] # tl desc_table)
   \<and> tl desc_table \<noteq> []
   \<and> fst (get_col_set (single_file ''boston.csv'' desc_table) ''boston.csv'' 1) =
       Inr {''LARCENY'', ''VANDALISM''}
   \<and> desc_max_length [''LARCENY'', ''VANDALISM''] = Inr 9
   \<and> spec_running_profile (tl desc_table) 1 = Inr ({''LARCENY'', ''VANDALISM''}, 9)"
proof -
  have f: "files (single_file ''boston.csv'' desc_table) ''boston.csv'' =
             Some ([''id'', ''desc''] # tl desc_table)"
    by (simp add: single_file_def desc_table_def)
  have n: "tl desc_table \<noteq> []"
    by (simp add: desc_table_def)
  have g: "fst (get_col_set (single_file ''boston.csv'' desc_table) ''boston.csv'' 1) =
             Inr {''LARCENY'', ''VANDALISM''}"
    unfolding get_col_set_table [OF f]
    by (simp add: desc_table_def getitem_def insert_commute)
  have d: "desc_max_length [''LARCENY'', ''VANDALISM''] = Inr 9"
    by (simp add: desc_max_length_def)
  have v: "set [''LARCENY'', ''VANDALISM''] = {''LARCENY'', ''VANDALISM''}"
    by simp
  from running_max_agrees [OF f n, of 1]
  have "\<forall>vals. set vals = {''LARCENY'', ''VANDALISM''} \<longrightarrow>
          (\<exists>m. spec_running_profile (tl desc_table) 1 = Inr ({''LARCENY'', ''VANDALISM''}, m)
             \<and> desc_max_length vals = Inr m)"
    unfolding g by simp
  with v obtain m
    where "spec_running_profile (tl desc_table) 1 = Inr ({''LARCENY'', ''VANDALISM''}, m)"
    and "desc_max_length [''LARCENY'', ''VANDALISM''] = Inr m"
    by blast
  with d have "spec_running_profile (tl desc_table) 1 = Inr ({''LARCENY'', ''VANDALISM''}, 9)"
    by simp
  with f n g d show ?thesis
    by blast
qed

end
